theory Spec2Isabelle
  imports Complex_Main "HOL-Library.Sublist"
begin

section \<open>The streaming generation loop of \<open>lit-parrot/chat.py\<close>\<close>

text \<open>
  The theory embeds the generator \<open>generate\<close> of \<open>chat.py\<close>: the configuration check in
  front of the loop, the position bookkeeping, the hold-back buffer and the stop-sequence
  test. A Python generator is observed through what it yields and through the calls it
  makes, so a run is modelled by the list of its events together with the way it ended.

  Lines 61 to 70 of the source (the forward pass of the external model, the division by
  the temperature, the top-k mask, softmax and the multinomial draw) end in a random draw
  from the output of a network that is not part of the repository. For the loop their
  joint result at loop index \<open>t\<close> is taken from a parameter \<open>smp\<close>: \<open>smp t = Some k\<close> when
  the draw returned the vocabulary index \<open>k\<close>, and \<open>smp t = None\<close> when one of those lines
  raised. The top-k mask and softmax of lines 65 to 69 are modelled on their own, as
  functions of the logits vector.
\<close>

subsection \<open>Data\<close>

datatype error = AssertionError | RuntimeError | IndexError | InferenceFailure

text \<open>
  \<open>Forward idx max_seq_length input_pos\<close> is one call of the model with its three
  arguments; \<open>Yield ts\<close> is one \<open>yield\<close> of a tensor holding the tokens \<open>ts\<close>
  (\<open>buffer[0]\<close> is a tensor of one token, \<open>buffer[:-l]\<close> a tensor of several).
\<close>

datatype event = Forward "int list" int "int list" | Yield "int list"

text \<open>
  How the generator ends: the \<open>for\<close> loop runs out (\<open>Exhausted\<close>), the \<open>return\<close> of
  the stop test is reached at loop index \<open>t\<close> for the pattern \<open>tokens\<close>
  (\<open>StopHit t tokens\<close>), or an exception leaves the generator.
\<close>

datatype outcome = Exhausted | StopHit nat "int list" | Raised error

text \<open>The keyword arguments of \<open>generate\<close>.\<close>

record config =
  max_new_tokens :: int
  max_seq_length :: "int option"
  temperature :: real
  top_k :: "int option"
  stop_tokens :: "int list list"

text \<open>The local variables that the loop changes.\<close>

record state =
  idx :: "int list"
  input_pos :: "int list"
  buffer :: "int list"
  yield_i :: int

subsection \<open>Python and tensor primitives\<close>

text \<open>\<open>xs[-l:]\<close>: the last \<open>l\<close> elements, and the whole of \<open>xs\<close> when \<open>l = 0\<close>.\<close>

definition slice_last :: "nat \<Rightarrow> 'a list \<Rightarrow> 'a list" where
  "slice_last l xs = (if l = 0 then xs else drop (length xs - l) xs)"

text \<open>\<open>xs[:-l]\<close>: all but the last \<open>l\<close> elements, and nothing when \<open>l = 0\<close>.\<close>

definition slice_butlast :: "nat \<Rightarrow> 'a list \<Rightarrow> 'a list" where
  "slice_butlast l xs = (if l = 0 then [] else take (length xs - l) xs)"

text \<open>\<open>xs[i] = v\<close>: a negative index counts from the end, an index out of range raises.\<close>

definition setitem :: "int list \<Rightarrow> int \<Rightarrow> int \<Rightarrow> error + int list" where
  "setitem xs i v =
     (let n = int (length xs); j = (if i < 0 then i + n else i)
      in if 0 \<le> j \<and> j < n then Inr (xs[nat j := v]) else Inl IndexError)"

text \<open>\<open>max((len(tokens) for tokens in stop_tokens), default=1)\<close>.\<close>

definition buffer_length :: "int list list \<Rightarrow> nat" where
  "buffer_length pats = (if pats = [] then 1 else fold max (map length pats) 0)"

subsection \<open>The stop test\<close>

text \<open>
  The inner \<open>for\<close> loop of lines 82 to 88: the patterns are tried in the order of the
  configuration, and the first one that \<open>torch.equal\<close> finds equal to \<open>buffer[-l:]\<close>
  is returned. Tensors of different sizes are never equal.
\<close>

fun stop_check :: "int list \<Rightarrow> int list list \<Rightarrow> int list option" where
  "stop_check buf [] = None"
| "stop_check buf (tokens # rest) =
     (if slice_last (length tokens) buf = tokens then Some tokens else stop_check buf rest)"

subsection \<open>One iteration of the loop\<close>

text \<open>
  The body of \<open>for t in range(max_new_tokens)\<close>. It returns the events of the iteration
  and either the way the generator ends there or the state for the next iteration.
  \<open>idx.view(1, -1)\<close> of a prompt without tokens is a tensor of shape \<open>(1, 0)\<close>, so the
  model is called for every prompt; after the first iteration \<open>idx\<close> is the token just
  drawn. \<open>torch.roll(buffer, -1, 0)\<close> moves the first slot to the end.
\<close>

definition body ::
  "int \<Rightarrow> int list list \<Rightarrow> nat \<Rightarrow> (nat \<Rightarrow> nat option) \<Rightarrow> nat \<Rightarrow> state
     \<Rightarrow> event list \<times> (outcome + state)" where
  "body msl pats L smp t st =
     (case smp t of
        None \<Rightarrow> ([Forward (idx st) msl (input_pos st)], Inl (Raised InferenceFailure))
      | Some tok \<Rightarrow>
          (case setitem (buffer st) (min (int t) (int L - 1)) (int tok) of
             Inl e \<Rightarrow> ([Forward (idx st) msl (input_pos st)], Inl (Raised e))
           | Inr buf \<Rightarrow>
               (case stop_check buf pats of
                  Some tokens \<Rightarrow>
                    (Forward (idx st) msl (input_pos st)
                       # (if L > length tokens
                          then [Yield (slice_butlast (length tokens) buf)] else []),
                     Inl (StopHit t tokens))
                | None \<Rightarrow>
                    if int t - yield_i st \<ge> int L
                    then ([Forward (idx st) msl (input_pos st), Yield [buf ! 0]],
                          Inr \<lparr>idx = [int tok],
                               input_pos = map (\<lambda>p. p + 1) (slice_last 1 (input_pos st)),
                               buffer = rotate1 buf,
                               yield_i = yield_i st + 1\<rparr>)
                    else ([Forward (idx st) msl (input_pos st)],
                          Inr \<lparr>idx = [int tok],
                               input_pos = map (\<lambda>p. p + 1) (slice_last 1 (input_pos st)),
                               buffer = buf,
                               yield_i = yield_i st\<rparr>))))"

subsection \<open>The loop and the generator\<close>

text \<open>\<open>loop msl pats L smp n t st\<close> runs the \<open>n\<close> iterations \<open>t, t + 1, \<dots>\<close> from \<open>st\<close>.\<close>

fun loop ::
  "int \<Rightarrow> int list list \<Rightarrow> nat \<Rightarrow> (nat \<Rightarrow> nat option) \<Rightarrow> nat \<Rightarrow> nat \<Rightarrow> state
     \<Rightarrow> event list \<times> outcome" where
  "loop msl pats L smp 0 t st = ([], Exhausted)"
| "loop msl pats L smp (Suc n) t st =
     (case body msl pats L smp t st of
        (evs, Inl out) \<Rightarrow> (evs, out)
      | (evs, Inr st') \<Rightarrow>
          (case loop msl pats L smp n (Suc t) st' of (evs', out) \<Rightarrow> (evs @ evs', out)))"

text \<open>
  \<open>generate block_size prompt cfg smp\<close>: lines 38 to 58 and the loop. \<open>block_size\<close> is
  \<open>model.config.block_size\<close>, \<open>prompt\<close> the tensor \<open>idx\<close> of the caller. Nothing before
  the \<open>assert\<close> and nothing between it and the loop reads \<open>temperature\<close> or \<open>top_k\<close>.
\<close>

definition generate ::
  "int \<Rightarrow> int list \<Rightarrow> config \<Rightarrow> (nat \<Rightarrow> nat option) \<Rightarrow> event list \<times> outcome" where
  "generate block_size prompt cfg smp =
     (let T = int (length prompt);
          T_new = T + max_new_tokens cfg;
          msl = (case max_seq_length cfg of None \<Rightarrow> min T_new block_size | Some m \<Rightarrow> m)
      in if \<not> msl \<le> T_new then ([], Raised AssertionError)
         else
           let L = buffer_length (stop_tokens cfg)
           in loop msl (stop_tokens cfg) L smp (nat (max_new_tokens cfg)) 0
                \<lparr>idx = prompt,
                 input_pos = map int [0..<length prompt],
                 buffer = replicate L (- 999),
                 yield_i = - 1\<rparr>)"

subsection \<open>Reading a run\<close>

text \<open>The tokens handed to the caller, in the order of the yields.\<close>

fun yielded :: "event list \<Rightarrow> int list" where
  "yielded [] = []"
| "yielded (Yield ts # evs) = ts @ yielded evs"
| "yielded (Forward i m p # evs) = yielded evs"

text \<open>The position argument of each call of the model, in the order of the calls.\<close>

fun call_positions :: "event list \<Rightarrow> int list list" where
  "call_positions [] = []"
| "call_positions (Forward i m p # evs) = p # call_positions evs"
| "call_positions (Yield ts # evs) = call_positions evs"

text \<open>The token drawn at loop index \<open>i\<close>, as it is stored in the buffer.\<close>

definition tok :: "(nat \<Rightarrow> nat option) \<Rightarrow> nat \<Rightarrow> int" where
  "tok smp i = int (the (smp i))"

subsection \<open>The top-k mask and softmax\<close>

text \<open>A logit after the mask of line 67: \<open>-float("Inf")\<close> or the value it had.\<close>

datatype 'a masked = NegInf | Val 'a

text \<open>
  Lines 66 and 67 for \<open>top_k = topk\<close>. \<open>torch.topk(logits, k)\<close> returns the \<open>k\<close> largest
  values in descending order and raises for a negative \<open>k\<close>; \<open>v[[-1]]\<close> is the last of
  them and raises when there is none; \<open>torch.where\<close> replaces every logit below it.
\<close>

definition crop :: "int \<Rightarrow> ('a :: linorder) list \<Rightarrow> error + 'a masked list" where
  "crop topk logits =
     (let k = min topk (int (length logits))
      in if k < 0 then Inl RuntimeError
         else if k = 0 then Inl IndexError
         else let v = take (nat k) (rev (sort logits))
              in Inr (map (\<lambda>x. if x < last v then NegInf else Val x) logits))"

text \<open>The \<open>k\<close>-th largest logit, \<open>k\<close> clamped to the size of the vocabulary.\<close>

definition kth_largest :: "int \<Rightarrow> ('a :: linorder) list \<Rightarrow> 'a" where
  "kth_largest k xs = rev (sort xs) ! (min (nat k) (length xs) - 1)"

text \<open>The tokens whose logit the mask has left in place.\<close>

definition unmasked :: "'a masked list \<Rightarrow> nat set" where
  "unmasked ys = {i. i < length ys \<and> ys ! i \<noteq> NegInf}"

text \<open>
  The logits are finite binary32 numbers. Of the rounding of binary32 arithmetic (to nearest,
  ties to even) the model keeps what decides whether a result is zero: the least
  positive binary32 number is \<open>1 / 2 ^ 149\<close>, so a result of magnitude at most
  \<open>1 / 2 ^ 150\<close> is rounded to zero and every larger one to a number that is not zero.
  Larger results are kept exact.
\<close>

definition fl32 :: "real \<Rightarrow> real" where
  "fl32 x = (if \<bar>x\<bar> \<le> 1 / 2 ^ 150 then 0 else x)"

text \<open>
  \<open>torch.nn.functional.softmax\<close> of line 69: the largest logit is subtracted, the
  exponentials are summed and each is divided by the sum; the exponential of
  \<open>-float("Inf")\<close> is zero. A vector without a finite logit gives no probabilities
  (\<open>nan\<close> everywhere).
\<close>

fun finite_values :: "'a masked list \<Rightarrow> 'a list" where
  "finite_values [] = []"
| "finite_values (NegInf # ys) = finite_values ys"
| "finite_values (Val a # ys) = a # finite_values ys"

definition softmax :: "real masked list \<Rightarrow> real list option" where
  "softmax ys =
     (case finite_values ys of
        [] \<Rightarrow> None
      | a # as \<Rightarrow>
          let m = fold max as a;
              es = map (\<lambda>y. case y of NegInf \<Rightarrow> 0 | Val x \<Rightarrow> fl32 (exp (fl32 (x - m)))) ys;
              s = fold (\<lambda>e acc. fl32 (acc + e)) es 0
          in Some (map (\<lambda>e. fl32 (e / s)) es))"

text \<open>Lines 65 to 69: the probabilities from which the token is drawn.\<close>

definition probs :: "int option \<Rightarrow> real list \<Rightarrow> error + real list option" where
  "probs topk logits =
     (case topk of
        None \<Rightarrow> Inr (softmax (map Val logits))
      | Some k \<Rightarrow> (case crop k logits of Inl e \<Rightarrow> Inl e | Inr ys \<Rightarrow> Inr (softmax ys)))"

text \<open>The tokens with a probability that is not zero.\<close>

definition support :: "real list \<Rightarrow> nat set" where
  "support ps = {i. i < length ps \<and> ps ! i \<noteq> 0}"

subsection \<open>Notions used in the statements\<close>

text \<open>
  A run of draws for examples: the draws return the indices \<open>xs\<close> in turn, and the
  lines 61 to 70 raise once the list is used up.
\<close>

definition draws :: "nat list \<Rightarrow> nat \<Rightarrow> nat option" where
  "draws xs t = (if t < length xs then Some (xs ! t) else None)"

text \<open>
  With a buffer of \<open>L\<close> slots, \<open>held L t\<close> tokens have been yielded when iteration \<open>t\<close>
  begins without a stop before it: nothing until the buffer is full, one per iteration
  from then on.
\<close>

definition held :: "nat \<Rightarrow> nat \<Rightarrow> nat" where
  "held L t = Suc t - L"

text \<open>No pattern ends in the value that fills the fresh buffer.\<close>

definition sentinel_free :: "int list list \<Rightarrow> bool" where
  "sentinel_free pats = (\<forall>p \<in> set pats. p \<noteq> [] \<longrightarrow> last p \<noteq> - 999)"

text \<open>
  The loop invariant at the start of iteration \<open>t\<close>, when no pattern ends in the filler.
  While the buffer is filling, it holds the draws so far followed by filler and
  \<open>yield_i\<close> is untouched. Afterwards its first \<open>L - 1\<close> slots hold the last \<open>L - 1\<close>
  draws, the last slot is the one to overwrite, and \<open>yield_i = t - L\<close>.
\<close>

definition loop_inv :: "(nat \<Rightarrow> nat option) \<Rightarrow> nat \<Rightarrow> nat \<Rightarrow> state \<Rightarrow> bool" where
  "loop_inv smp L t st =
     (0 < L \<and> length (buffer st) = L \<and> (\<forall>i < t. smp i \<noteq> None) \<and>
      (if Suc t < L
       then buffer st = map (tok smp) [0..<t] @ replicate (L - t) (- 999) \<and> yield_i st = - 1
       else take (L - 1) (buffer st) = map (tok smp) [Suc t - L..<t] \<and>
            yield_i st = int t - int L))"

text \<open>
  The events of a run without the arguments of the calls: \<open>None\<close> for a call of the
  model, \<open>Some ts\<close> for a yield of \<open>ts\<close>.
\<close>

fun shape :: "event list \<Rightarrow> int list option list" where
  "shape [] = []"
| "shape (Forward i m p # evs) = None # shape evs"
| "shape (Yield ts # evs) = Some ts # shape evs"

text \<open>
  The shape of \<open>m\<close> iterations, from iteration \<open>t\<close> on, each of which calls the model
  and yields the token drawn in it before the next call.
\<close>

definition same_step :: "(nat \<Rightarrow> nat option) \<Rightarrow> nat \<Rightarrow> nat \<Rightarrow> int list option list" where
  "same_step smp t m = concat (map (\<lambda>j. [None, Some [tok smp j]]) [t..<t + m])"

section \<open>Auxiliary facts\<close>

subsection \<open>Slices, the stop test and the buffer write\<close>

lemma stop_check_None: "(\<And>p. p \<in> set pats \<Longrightarrow> slice_last (length p) buf \<noteq> p) \<Longrightarrow> stop_check buf pats = None"
  by (induction pats) auto

lemma stop_check_Some: "stop_check buf pats = Some p \<Longrightarrow> p \<in> set pats \<and> slice_last (length p) buf = p"
  by (induction pats) (auto split: if_splits)

lemma slice_last_sentinel:
  assumes "buf \<noteq> []" "last buf = - 999" "p \<noteq> [] \<longrightarrow> last p \<noteq> - 999"
  shows "slice_last (length p) buf \<noteq> p"
proof
  assume eq: "slice_last (length p) buf = p"
  show False
  proof (cases "p = []")
    case True
    with eq assms(1) show False by (simp add: slice_last_def)
  next
    case False
    then have "drop (length buf - length p) buf = p" using eq by (simp add: slice_last_def)
    then have "last p = last buf" using False by (metis last_drop drop_eq_Nil not_le)
    with assms False show False by simp
  qed
qed

lemma slice_last_length: "slice_last (length p) buf = p \<Longrightarrow> buf \<noteq> [] \<Longrightarrow> p \<noteq> [] \<and> length p \<le> length buf"
  apply (auto simp: slice_last_def split: if_splits)
  by (metis diff_le_self length_drop)

lemma buffer_length_Max: "pats \<noteq> [] \<Longrightarrow> buffer_length pats = Max (set (map length pats))"
proof -
  assume "pats \<noteq> []"
  then obtain p ps where pats: "pats = p # ps" by (cases pats) auto
  have "Max (set (map length (p # ps))) = fold max (map length ps) (length p)"
    using Max.set_eq_fold[of "length p" "map length ps"] by simp
  then show ?thesis by (simp add: buffer_length_def pats)
qed

lemma min_int_pred: "0 < n \<Longrightarrow> min (int t) (int n - 1) = int (min t (n - 1))"
  by (cases n) (auto simp: min_def)

lemma setitem_ok: "0 < length xs \<Longrightarrow> setitem xs (min (int t) (int (length xs) - 1)) v = Inr (xs[min t (length xs - 1) := v])"
proof -
  assume pos: "0 < length xs"
  have "min (int t) (int (length xs) - 1) = int (min t (length xs - 1))"
    using pos by (rule min_int_pred)
  then show ?thesis using pos by (simp add: setitem_def Let_def)
qed

lemma buf_early:
  assumes "Suc t < L" "xs = map f [0..<t] @ replicate (L - t) (s::int)"
  shows "xs[min t (L - 1) := f t] = map f [0..<Suc t] @ replicate (L - Suc t) s"
proof -
  have m: "min t (L - 1) = t" using assms(1) by simp
  have r: "replicate (L - t) s = s # replicate (L - Suc t) s"
    using assms(1) by (metis Suc_diff_Suc Suc_lessD replicate_Suc)
  show ?thesis unfolding m assms(2) r by (simp add: list_update_append)
qed

lemma buf_full:
  assumes "\<not> Suc t < L" "0 < L" "length xs = L" "take (L - 1) xs = map f [Suc t - L..<t]"
  shows "xs[min t (L - 1) := f t] = map f [Suc t - L..<Suc t]"
proof -
  have m: "min t (L - 1) = L - 1" using assms(1,2) by simp
  have lt: "L - 1 < length xs" using assms(2,3) by simp
  have le: "Suc t - L \<le> t" using assms(2) by simp
  have "xs[L - 1 := f t] = take (L - 1) xs @ f t # drop (Suc (L - 1)) xs"
    using lt by (rule upd_conv_take_nth_drop)
  also have "drop (Suc (L - 1)) xs = []" using assms(2,3) by simp
  finally have "xs[L - 1 := f t] = map f [Suc t - L..<t] @ [f t]" using assms(4) by simp
  also have "\<dots> = map f [Suc t - L..<Suc t]" using le by simp
  finally show ?thesis unfolding m .
qed

lemma body_step:
  assumes I: "loop_inv smp L t st" and sf: "sentinel_free pats"
    and b: "body msl pats L smp t st = (evs, r)"
  shows "case r of
           Inr st' \<Rightarrow> loop_inv smp L (Suc t) st' \<and>
             yielded evs = map (tok smp) [held L t..<held L (Suc t)]
         | Inl Exhausted \<Rightarrow> False
         | Inl (StopHit t' p) \<Rightarrow> t' = t \<and> smp t \<noteq> None \<and> p \<in> set pats \<and> p \<noteq> [] \<and>
             length p \<le> L \<and> L \<le> Suc t \<and>
             stop_check (map (tok smp) [Suc t - L..<Suc t]) pats = Some p \<and>
             yielded evs = map (tok smp) [held L t..<Suc t - length p]
         | Inl (Raised e) \<Rightarrow> yielded evs = []"
proof -
  show ?thesis
  proof (cases "smp t")
    case None
    with b show ?thesis by (auto simp: body_def)
  next
    case (Some v)
    have Lpos: "0 < L" and len: "length (buffer st) = L" and prev: "\<forall>i<t. smp i \<noteq> None"
      using I by (simp_all add: loop_inv_def)
    have tv: "tok smp t = int v" using Some by (simp add: tok_def)
    define buf where "buf = (buffer st)[min t (L - 1) := int v]"
    have set: "setitem (buffer st) (min (int t) (int L - 1)) (int v) = Inr buf"
      using setitem_ok[of "buffer st" t "int v"] Lpos len by (simp add: buf_def)
    have lbuf: "length buf = L" by (simp add: buf_def len)
    have prev': "\<forall>i<Suc t. smp i \<noteq> None" using prev Some by (auto simp: less_Suc_eq)
    show ?thesis
    proof (cases "Suc t < L")
      case early: True
      have bst: "buffer st = map (tok smp) [0..<t] @ replicate (L - t) (- 999)"
        and yi: "yield_i st = - 1" using I early by (simp_all add: loop_inv_def)
      have bufeq: "buf = map (tok smp) [0..<Suc t] @ replicate (L - Suc t) (- 999)"
        unfolding buf_def tv[symmetric] using early bst by (rule buf_early)
      have "last buf = - 999" "buf \<noteq> []" using early by (simp_all add: bufeq)
      then have "\<And>p. p \<in> set pats \<Longrightarrow> slice_last (length p) buf \<noteq> p"
        using sf by (intro slice_last_sentinel) (auto simp: sentinel_free_def)
      then have sc: "stop_check buf pats = None" by (rule stop_check_None)
      have nofull: "\<not> int L \<le> int t - yield_i st" using early yi by simp
      have r: "r = Inr \<lparr>idx = [int v], input_pos = map (\<lambda>p. p + 1) (slice_last 1 (input_pos st)),
                   buffer = buf, yield_i = yield_i st\<rparr>"
        and evs: "evs = [Forward (idx st) msl (input_pos st)]"
        using b Some set sc nofull by (simp_all add: body_def)
      have "loop_inv smp L (Suc t) \<lparr>idx = [int v], input_pos = map (\<lambda>p. p + 1) (slice_last 1 (input_pos st)),
                   buffer = buf, yield_i = yield_i st\<rparr>"
      proof (cases "Suc (Suc t) < L")
        case True
        then show ?thesis using Lpos lbuf prev' bufeq yi by (simp add: loop_inv_def)
      next
        case False
        then have "L = Suc (Suc t)" using early by simp
        then show ?thesis using Lpos lbuf prev' yi by (simp add: loop_inv_def bufeq)
      qed
      moreover have "yielded evs = map (tok smp) [held L t..<held L (Suc t)]"
        using early by (simp add: evs held_def)
      ultimately show ?thesis by (simp add: r)
    next
      case full: False
      have tk: "take (L - 1) (buffer st) = map (tok smp) [Suc t - L..<t]"
        and yi: "yield_i st = int t - int L" using I full by (simp_all add: loop_inv_def)
      have bufeq: "buf = map (tok smp) [Suc t - L..<Suc t]"
        unfolding buf_def tv[symmetric] using full Lpos len tk by (rule buf_full)
      have isfull: "int L \<le> int t - yield_i st" using yi by simp
      have bne: "buf \<noteq> []" using lbuf Lpos by auto
      show ?thesis
      proof (cases "stop_check buf pats")
        case None
        have r: "r = Inr \<lparr>idx = [int v], input_pos = map (\<lambda>p. p + 1) (slice_last 1 (input_pos st)),
                   buffer = rotate1 buf, yield_i = yield_i st + 1\<rparr>"
          and evs: "evs = [Forward (idx st) msl (input_pos st), Yield [buf ! 0]]"
          using b Some set None isfull by (simp_all add: body_def)
        have up: "[Suc t - L..<Suc t] = (Suc t - L) # [Suc (Suc t - L)..<Suc t]"
          using Lpos by (intro upt_conv_Cons) simp
        have b0: "buf ! 0 = tok smp (Suc t - L)" unfolding bufeq up by simp
        have h: "held L (Suc t) = Suc (held L t)" using full by (simp add: held_def Suc_diff_le)
        have "take (L - 1) (rotate1 buf) = map (tok smp) [Suc (Suc t) - L..<Suc t]"
        proof -
          have "rotate1 buf = map (tok smp) [Suc (Suc t - L)..<Suc t] @ [tok smp (Suc t - L)]"
            unfolding bufeq up by simp
          moreover have "Suc t - Suc (Suc t - L) = L - 1" using full Lpos by arith
          then have "length (map (tok smp) [Suc (Suc t - L)..<Suc t]) = L - 1"
            by (simp only: length_map length_upt)
          moreover have "Suc (Suc t - L) = Suc (Suc t) - L" using full by simp
          ultimately show ?thesis by simp
        qed
        then have "loop_inv smp L (Suc t) \<lparr>idx = [int v], input_pos = map (\<lambda>p. p + 1) (slice_last 1 (input_pos st)),
                   buffer = rotate1 buf, yield_i = yield_i st + 1\<rparr>"
          using Lpos lbuf prev' yi full by (simp add: loop_inv_def)
        moreover have "yielded evs = map (tok smp) [held L t..<held L (Suc t)]"
          unfolding h by (simp add: evs b0 held_def)
        ultimately show ?thesis by (simp add: r)
      next
        case (Some p)
        have pin: "p \<in> set pats" and m: "slice_last (length p) buf = p"
          using stop_check_Some[OF Some] by simp_all
        have pl: "p \<noteq> []" "length p \<le> L" using slice_last_length[OF m bne] lbuf by simp_all
        have r: "r = Inl (StopHit t p)"
          and evs: "evs = Forward (idx st) msl (input_pos st) #
               (if L > length p then [Yield (slice_butlast (length p) buf)] else [])"
          using b \<open>smp t = Some v\<close> set Some by (simp_all add: body_def)
        have "Suc t - L + (L - length p) \<le> Suc t" using pl full by arith
        then have "take (L - length p) [Suc t - L..<Suc t] = [Suc t - L..<Suc t - L + (L - length p)]"
          by (rule take_upt)
        moreover have "Suc t - L + (L - length p) = Suc t - length p" using pl full by arith
        ultimately have "take (L - length p) buf = map (tok smp) [Suc t - L..<Suc t - length p]"
          by (simp only: bufeq take_map)
        then have sb: "slice_butlast (length p) buf = map (tok smp) [Suc t - L..<Suc t - length p]"
          using pl lbuf by (simp add: slice_butlast_def)
        have "yielded evs = map (tok smp) [held L t..<Suc t - length p]"
        proof (cases "L > length p")
          case True
          then show ?thesis by (simp add: evs sb held_def)
        next
          case False
          then have "length p = L" using pl by simp
          then show ?thesis using False by (simp add: evs held_def)
        qed
        then show ?thesis using pin pl full \<open>smp t = Some v\<close> Some[unfolded bufeq]
          by (simp add: r)
      qed
    qed
  qed
qed

lemma yielded_append: "yielded (xs @ ys) = yielded xs @ yielded ys"
  by (induction xs rule: yielded.induct) simp_all

lemma map_upt_join: "a \<le> b \<Longrightarrow> b \<le> c \<Longrightarrow> map f [a..<b] @ map f [b..<c] = map f [a..<c]"
  by (metis le_Suc_ex map_append upt_add_eq_append)

lemma held_le: "0 < L \<Longrightarrow> held L t \<le> t"
  by (simp add: held_def)

lemma held_mono: "held L t \<le> held L (Suc t)"
  by (simp add: held_def)

lemma loop_run:
  assumes "loop_inv smp L t st" and "sentinel_free pats"
    and "loop msl pats L smp n t st = (evs, out)"
  shows "\<exists>k. held L t \<le> k \<and> yielded evs = map (tok smp) [held L t..<k] \<and>
           (\<forall>i<k. smp i \<noteq> None) \<and> k \<le> t + n \<and>
           (out = Exhausted \<longrightarrow> k = held L (t + n)) \<and>
           (\<forall>t' p. out = StopHit t' p \<longrightarrow>
              k = Suc t' - length p \<and> t \<le> t' \<and> t' < t + n \<and> p \<in> set pats \<and> p \<noteq> [] \<and>
              length p \<le> L \<and> L \<le> Suc t' \<and> (\<forall>i\<le>t'. smp i \<noteq> None) \<and>
              stop_check (map (tok smp) [Suc t' - L..<Suc t']) pats = Some p)"
  using assms
proof (induction n arbitrary: t st evs out)
  case 0
  have "0 < L" and prev: "\<forall>i<t. smp i \<noteq> None" using "0.prems"(1) by (simp_all add: loop_inv_def)
  then have "\<forall>i<held L t. smp i \<noteq> None" using held_le[of L t] by auto
  moreover have "evs = []" "out = Exhausted" using "0.prems"(3) by simp_all
  ultimately show ?case using held_le[OF \<open>0 < L\<close>, of t] by (intro exI[of _ "held L t"]) simp
next
  case (Suc n)
  have Lpos: "0 < L" and prev: "\<forall>i<t. smp i \<noteq> None" using Suc.prems(1) by (simp_all add: loop_inv_def)
  have hl: "held L t \<le> t" using Lpos by (rule held_le)
  obtain e1 r where b: "body msl pats L smp t st = (e1, r)" by (cases "body msl pats L smp t st")
  note bs = body_step[OF Suc.prems(1,2) b]
  show ?case
  proof (cases r)
    case (Inl o1)
    then have lo: "evs = e1" "out = o1" using Suc.prems(3) b by simp_all
    show ?thesis
    proof (cases o1)
      case Exhausted
      with bs Inl show ?thesis by simp
    next
      case (StopHit t' p)
      with bs Inl have f: "t' = t" "smp t \<noteq> None" "p \<in> set pats" "p \<noteq> []" "length p \<le> L"
        "L \<le> Suc t" "yielded e1 = map (tok smp) [held L t..<Suc t - length p]"
        "stop_check (map (tok smp) [Suc t - L..<Suc t]) pats = Some p" by simp_all
      have all: "\<forall>i\<le>t. smp i \<noteq> None" using prev f(2) by (auto simp: le_less)
      have "Suc t - length p \<le> t" using f(4) by (cases p) simp_all
      moreover have "held L t \<le> Suc t - length p" using f(5) by (simp add: held_def)
      ultimately show ?thesis using f all lo StopHit
        by (intro exI[of _ "Suc t - length p"]) auto
    next
      case (Raised e)
      with bs Inl have "yielded e1 = []" by simp
      then show ?thesis using lo Raised hl prev by (intro exI[of _ "held L t"]) auto
    qed
  next
    case (Inr st')
    obtain e2 o2 where l2: "loop msl pats L smp n (Suc t) st' = (e2, o2)"
      by (cases "loop msl pats L smp n (Suc t) st'")
    have lo: "evs = e1 @ e2" "out = o2" using Suc.prems(3) b Inr l2 by simp_all
    from bs Inr have I': "loop_inv smp L (Suc t) st'"
      and y1: "yielded e1 = map (tok smp) [held L t..<held L (Suc t)]" by simp_all
    from Suc.IH[OF I' Suc.prems(2) l2] obtain k where k:
      "held L (Suc t) \<le> k" "yielded e2 = map (tok smp) [held L (Suc t)..<k]"
      "\<forall>i<k. smp i \<noteq> None" "k \<le> Suc t + n"
      "o2 = Exhausted \<longrightarrow> k = held L (Suc t + n)"
      "\<forall>t' p. o2 = StopHit t' p \<longrightarrow>
              k = Suc t' - length p \<and> Suc t \<le> t' \<and> t' < Suc t + n \<and> p \<in> set pats \<and> p \<noteq> [] \<and>
              length p \<le> L \<and> L \<le> Suc t' \<and> (\<forall>i\<le>t'. smp i \<noteq> None) \<and>
              stop_check (map (tok smp) [Suc t' - L..<Suc t']) pats = Some p"
      by blast
    have "yielded evs = map (tok smp) [held L t..<k]"
      unfolding lo yielded_append y1 k(2) using held_mono k(1) by (rule map_upt_join)
    moreover have "held L t \<le> k" using held_mono[of L t] k(1) by simp
    ultimately show ?thesis using k lo by (intro exI[of _ k]) auto
  qed
qed

lemma loop_no_slot:
  assumes "buffer st = []" and "loop msl pats 0 smp n t st = (evs, out)"
  shows "yielded evs = [] \<and> (out = Exhausted \<longrightarrow> n = 0) \<and> (\<forall>t' p. out \<noteq> StopHit t' p)"
proof (cases n)
  case 0
  with assms(2) show ?thesis by auto
next
  case (Suc m)
  have "setitem [] (min (int t) (int 0 - 1)) v = Inl IndexError" for v
    by (simp add: setitem_def)
  then have "\<exists>e es. body msl pats 0 smp t st = (es, Inl (Raised e)) \<and> yielded es = []"
    using assms(1) by (auto simp: body_def split: option.splits)
  then show ?thesis using assms(2) Suc by auto
qed

lemma loop_inv_init:
  "0 < L \<Longrightarrow> loop_inv smp L 0 \<lparr>idx = prompt, input_pos = ps, buffer = replicate L (- 999), yield_i = - 1\<rparr>"
  by (auto simp: loop_inv_def)

lemma generate_run:
  assumes sf: "sentinel_free (stop_tokens cfg)"
    and g: "generate block_size prompt cfg smp = (evs, out)"
  shows "\<exists>k. yielded evs = map (tok smp) [0..<k] \<and> (\<forall>i<k. smp i \<noteq> None) \<and>
           k \<le> nat (max_new_tokens cfg) \<and>
           (out = Exhausted \<longrightarrow>
              k = nat (max_new_tokens cfg) - (buffer_length (stop_tokens cfg) - 1)) \<and>
           (\<forall>t p. out = StopHit t p \<longrightarrow>
              k = Suc t - length p \<and> t < nat (max_new_tokens cfg) \<and> p \<in> set (stop_tokens cfg) \<and>
              p \<noteq> [] \<and> length p \<le> Suc t \<and> (\<forall>i\<le>t. smp i \<noteq> None) \<and>
              buffer_length (stop_tokens cfg) \<le> Suc t \<and>
              stop_check (map (tok smp) [Suc t - buffer_length (stop_tokens cfg)..<Suc t])
                (stop_tokens cfg) = Some p)"
proof -
  define L where "L = buffer_length (stop_tokens cfg)"
  define N where "N = nat (max_new_tokens cfg)"
  define T_new where "T_new = int (length prompt) + max_new_tokens cfg"
  define msl where "msl = (case max_seq_length cfg of None \<Rightarrow> min T_new block_size | Some m \<Rightarrow> m)"
  define st0 where "st0 = \<lparr>idx = prompt, input_pos = map int [0..<length prompt],
                 buffer = replicate L (- 999), yield_i = - 1\<rparr>"
  have gen: "generate block_size prompt cfg smp =
      (if \<not> msl \<le> T_new then ([], Raised AssertionError)
       else loop msl (stop_tokens cfg) L smp N 0 st0)"
    unfolding generate_def Let_def msl_def T_new_def L_def N_def st0_def by simp
  show ?thesis
  proof (cases "msl \<le> T_new")
    case False
    with g gen have "evs = []" "out = Raised AssertionError" by simp_all
    then show ?thesis by (intro exI[of _ 0]) simp
  next
    case True
    with g gen have lp: "loop msl (stop_tokens cfg) L smp N 0 st0 = (evs, out)" by simp
    show ?thesis
    proof (cases "L = 0")
      case True
      have "buffer st0 = []" by (simp add: st0_def True)
      from loop_no_slot[OF this lp[unfolded True]]
      show ?thesis unfolding L_def[symmetric] N_def[symmetric] using True
        by (intro exI[of _ 0]) auto
    next
      case False
      then have I: "loop_inv smp L 0 st0" unfolding st0_def by (intro loop_inv_init) simp
      have h0: "held L 0 = 0" using False by (simp add: held_def)
      have hN: "held L N = N - (L - 1)" using False by (simp add: held_def)
      from loop_run[OF I sf lp] obtain k where k:
        "yielded evs = map (tok smp) [held L 0..<k]" "\<forall>i<k. smp i \<noteq> None" "k \<le> 0 + N"
        "out = Exhausted \<longrightarrow> k = held L (0 + N)"
        "\<forall>t' p. out = StopHit t' p \<longrightarrow>
              k = Suc t' - length p \<and> 0 \<le> t' \<and> t' < 0 + N \<and> p \<in> set (stop_tokens cfg) \<and> p \<noteq> [] \<and>
              length p \<le> L \<and> L \<le> Suc t' \<and> (\<forall>i\<le>t'. smp i \<noteq> None) \<and>
              stop_check (map (tok smp) [Suc t' - L..<Suc t']) (stop_tokens cfg) = Some p"
        by blast
      show ?thesis unfolding L_def[symmetric] N_def[symmetric] using k h0 hN
        by (intro exI[of _ k]) auto
    qed
  qed
qed


lemma token_ids_sentinel_free:
  assumes "\<forall>p \<in> set pats. \<forall>x \<in> set p. 0 \<le> x"
  shows "sentinel_free pats"
  unfolding sentinel_free_def
proof (intro ballI impI)
  fix p assume "p \<in> set pats" "p \<noteq> []"
  then have "0 \<le> last p" using assms last_in_set by blast
  then show "last p \<noteq> - 999" by simp
qed

subsection \<open>The pattern a stop is made on\<close>

lemma stop_check_split:
  "stop_check buf pats = Some p \<Longrightarrow>
     \<exists>before after. pats = before @ p # after \<and>
       (\<forall>q \<in> set before. slice_last (length q) buf \<noteq> q) \<and> slice_last (length p) buf = p"
proof (induction pats)
  case Nil
  then show ?case by simp
next
  case (Cons a pats)
  show ?case
  proof (cases "slice_last (length a) buf = a")
    case True
    with Cons.prems have "a = p" by simp
    with True show ?thesis by (intro exI[of _ "[]"] exI[of _ pats]) simp
  next
    case False
    with Cons.prems have "stop_check buf pats = Some p" by simp
    from Cons.IH[OF this] obtain before after where
      "pats = before @ p # after" "\<forall>q \<in> set before. slice_last (length q) buf \<noteq> q"
      "slice_last (length p) buf = p" by blast
    with False show ?thesis by (intro exI[of _ "a # before"] exI[of _ after]) simp
  qed
qed

lemma fold_max_ge: "(x :: nat) \<in> set xs \<Longrightarrow> x \<le> fold max xs a"
proof (induction xs arbitrary: a)
  case Nil
  then show ?case by simp
next
  case (Cons y ys)
  have mono: "b \<le> fold max ys b" for b :: nat
    by (induction ys arbitrary: b) (auto intro: order_trans[OF max.cobounded2])
  show ?case
  proof (cases "x = y")
    case True
    then show ?thesis using mono[of "max y a"] by simp
  next
    case False
    with Cons show ?thesis by simp
  qed
qed

lemma length_le_buffer_length: "q \<in> set pats \<Longrightarrow> length q \<le> buffer_length pats"
  using fold_max_ge[of "length q" "map length pats" 0] by (auto simp: buffer_length_def)

lemma slice_last_suffix:
  assumes "q \<noteq> []" and "length q \<le> L" and "L \<le> Suc t"
  shows "(slice_last (length q) (map f [Suc t - L..<Suc t]) = q) = suffix q (map f [0..<Suc t])"
proof -
  define buf where "buf = map f [Suc t - L..<Suc t]"
  define old where "old = map f [0..<Suc t - L]"
  have all: "map f [0..<Suc t] = old @ buf"
    unfolding old_def buf_def by (rule map_upt_join[symmetric]) simp_all
  have lb: "length buf = L" unfolding buf_def length_map length_upt using assms(3) by arith
  have sl: "slice_last (length q) buf = drop (L - length q) buf"
    using assms(1) by (simp add: slice_last_def lb)
  show ?thesis unfolding buf_def[symmetric] all sl
  proof
    assume "drop (L - length q) buf = q"
    then have "buf = take (L - length q) buf @ q" by (metis append_take_drop_id)
    then have "old @ buf = (old @ take (L - length q) buf) @ q" by simp
    then show "suffix q (old @ buf)" unfolding suffix_def by blast
  next
    assume "suffix q (old @ buf)"
    then obtain zs where zs: "old @ buf = zs @ q" unfolding suffix_def by blast
    have "length old \<le> length zs" using arg_cong[OF zs, of length] assms(2) lb by simp
    then obtain ws where "zs = old @ ws"
      using zs by (metis append_eq_append_conv_if append_take_drop_id)
    with zs have "buf = ws @ q" by simp
    moreover from this have "length ws = L - length q" using lb by (metis add_diff_cancel_right' length_append)
    ultimately show "drop (L - length q) buf = q" by simp
  qed
qed

text \<open>
  When the generator stops on a pattern, the pattern is the first of the configuration
  that ends the sequence of draws so far.
\<close>

lemma stop_on_first_suffix:
  assumes "\<forall>p \<in> set (stop_tokens cfg). p \<noteq> [] \<and> (\<forall>x \<in> set p. 0 \<le> x)"
    and "generate block_size prompt cfg smp = (evs, StopHit t p)"
  shows "\<exists>before after. stop_tokens cfg = before @ p # after \<and>
           suffix p (map (tok smp) [0..<Suc t]) \<and>
           (\<forall>q \<in> set before. \<not> suffix q (map (tok smp) [0..<Suc t]))"
proof -
  define L where "L = buffer_length (stop_tokens cfg)"
  have "sentinel_free (stop_tokens cfg)" using assms(1) by (intro token_ids_sentinel_free) blast
  from generate_run[OF this assms(2)] have full: "L \<le> Suc t"
    and sc: "stop_check (map (tok smp) [Suc t - L..<Suc t]) (stop_tokens cfg) = Some p"
    unfolding L_def by auto
  from stop_check_split[OF sc] obtain before after where ba:
    "stop_tokens cfg = before @ p # after"
    "\<forall>q \<in> set before. slice_last (length q) (map (tok smp) [Suc t - L..<Suc t]) \<noteq> q"
    "slice_last (length p) (map (tok smp) [Suc t - L..<Suc t]) = p" by blast
  have conv: "(slice_last (length q) (map (tok smp) [Suc t - L..<Suc t]) = q)
                = suffix q (map (tok smp) [0..<Suc t])" if "q \<in> set (stop_tokens cfg)" for q
    using that assms(1) length_le_buffer_length[OF that] full unfolding L_def
    by (intro slice_last_suffix) auto
  have "suffix p (map (tok smp) [0..<Suc t])" using conv[of p] ba(1,3) by simp
  moreover have "\<forall>q \<in> set before. \<not> suffix q (map (tok smp) [0..<Suc t])"
    using conv ba(1,2) by auto
  ultimately show ?thesis using ba(1) by blast
qed

subsection \<open>The positions of the calls\<close>

lemma call_positions_append: "call_positions (xs @ ys) = call_positions xs @ call_positions ys"
  by (induction xs rule: call_positions.induct) simp_all

lemma body_calls:
  assumes "body msl pats L smp t st = (evs, r)"
  shows "call_positions evs = [input_pos st] \<and>
         (\<forall>st'. r = Inr st' \<longrightarrow>
            input_pos st' = map (\<lambda>p. p + 1) (slice_last 1 (input_pos st)))"
  using assms by (auto simp: body_def split: option.splits sum.splits if_splits)

lemma advance_position: "ps \<noteq> [] \<Longrightarrow> map (\<lambda>p. p + 1) (slice_last 1 ps) = [last ps + 1]"
proof -
  assume ne: "ps \<noteq> []"
  then have "drop (length ps - 1) ps = [last ps]"
    by (induction ps rule: rev_induct) simp_all
  then show ?thesis by (simp add: slice_last_def)
qed

lemma loop_positions:
  assumes "input_pos st \<noteq> []"
    and "i < length (call_positions (fst (loop msl pats L smp n t st)))"
  shows "call_positions (fst (loop msl pats L smp n t st)) ! i
           = (if i = 0 then input_pos st else [last (input_pos st) + int i])"
  using assms
proof (induction n arbitrary: t st i)
  case 0
  then show ?case by simp
next
  case (Suc n)
  obtain e1 r where b: "body msl pats L smp t st = (e1, r)" by (cases "body msl pats L smp t st")
  note bc = body_calls[OF b]
  show ?case
  proof (cases r)
    case (Inl o1)
    then have lo: "fst (loop msl pats L smp (Suc n) t st) = e1" using b by simp
    with Suc.prems(2) bc show ?thesis by auto
  next
    case (Inr st')
    obtain e2 o2 where l2: "loop msl pats L smp n (Suc t) st' = (e2, o2)"
      by (cases "loop msl pats L smp n (Suc t) st'")
    have lo: "fst (loop msl pats L smp (Suc n) t st) = e1 @ e2" using b Inr l2 by simp
    from bc Inr have c1: "call_positions e1 = [input_pos st]"
      and p': "input_pos st' = [last (input_pos st) + 1]"
      using advance_position[OF Suc.prems(1)] by auto
    have cp: "call_positions (fst (loop msl pats L smp (Suc n) t st))
                = input_pos st # call_positions e2"
      unfolding lo by (simp add: call_positions_append c1)
    show ?thesis
    proof (cases i)
      case 0
      then show ?thesis unfolding cp by simp
    next
      case (Suc j)
      then have "j < length (call_positions (fst (loop msl pats L smp n (Suc t) st')))"
        using Suc.prems(2) unfolding cp by (simp add: l2)
      moreover have "input_pos st' \<noteq> []" by (simp add: p')
      ultimately have "call_positions (fst (loop msl pats L smp n (Suc t) st')) ! j
           = (if j = 0 then input_pos st' else [last (input_pos st') + int j])"
        by (rule Suc.IH[rotated])
      then show ?thesis using Suc unfolding cp by (simp add: l2 p')
    qed
  qed
qed

subsection \<open>A buffer of one slot\<close>

lemma shape_append: "shape (xs @ ys) = shape xs @ shape ys"
  by (induction xs rule: shape.induct) simp_all

lemma same_step_Suc: "same_step smp t (Suc m) = [None, Some [tok smp t]] @ same_step smp (Suc t) m"
proof -
  have "[t..<t + Suc m] = t # [Suc t..<Suc t + m]" by (simp add: upt_conv_Cons)
  then show ?thesis by (simp add: same_step_def)
qed

lemma body_one_slot:
  assumes "length (buffer st) = 1" and "yield_i st = int t - 1" and "smp t = Some v"
  shows "\<exists>st'. body msl [] 1 smp t st
            = ([Forward (idx st) msl (input_pos st), Yield [tok smp t]], Inr st') \<and>
          length (buffer st') = 1 \<and> yield_i st' = int (Suc t) - 1"
proof -
  obtain b where b: "buffer st = [b]" using assms(1) by (cases "buffer st") simp_all
  have "setitem (buffer st) (min (int t) (int 1 - 1)) (int v) = Inr [int v]"
    by (simp add: setitem_def b)
  then show ?thesis using assms(2,3) by (simp add: body_def tok_def)
qed

lemma body_draw_raised:
  assumes "smp t = None"
  shows "body msl pats L smp t st
           = ([Forward (idx st) msl (input_pos st)], Inl (Raised InferenceFailure))"
  using assms by (simp add: body_def)

lemma loop_one_slot:
  assumes "length (buffer st) = 1" and "yield_i st = int t - 1"
    and "loop msl [] 1 smp n t st = (evs, out)"
  shows "\<exists>m\<le>n. (\<forall>j<m. smp (t + j) \<noteq> None) \<and> (m < n \<longrightarrow> smp (t + m) = None) \<and>
           shape evs = same_step smp t m @ (if m < n then [None] else []) \<and>
           yielded evs = map (tok smp) [t..<t + m] \<and>
           out = (if m < n then Raised InferenceFailure else Exhausted)"
  using assms
proof (induction n arbitrary: t st evs out)
  case 0
  then show ?case by (simp add: same_step_def)
next
  case (Suc n)
  show ?case
  proof (cases "smp t")
    case None
    have "body msl [] 1 smp t st
           = ([Forward (idx st) msl (input_pos st)], Inl (Raised InferenceFailure))"
      using None by (rule body_draw_raised)
    then have "evs = [Forward (idx st) msl (input_pos st)]" "out = Raised InferenceFailure"
      using Suc.prems(3) by simp_all
    then show ?thesis using None by (intro exI[of _ 0]) (simp add: same_step_def)
  next
    case (Some v)
    from body_one_slot[where st = st and smp = smp and t = t and v = v and msl = msl,
        OF Suc.prems(1,2) Some] obtain st' where
      b: "body msl [] 1 smp t st
            = ([Forward (idx st) msl (input_pos st), Yield [tok smp t]], Inr st')"
      and st': "length (buffer st') = 1" "yield_i st' = int (Suc t) - 1" by blast
    obtain e2 o2 where l2: "loop msl [] 1 smp n (Suc t) st' = (e2, o2)"
      by (cases "loop msl [] 1 smp n (Suc t) st'")
    have lo: "evs = [Forward (idx st) msl (input_pos st), Yield [tok smp t]] @ e2" "out = o2"
      using Suc.prems(3) b l2 by simp_all
    from Suc.IH[OF st' l2] obtain m where m: "m \<le> n" "\<forall>j<m. smp (Suc t + j) \<noteq> None"
      "m < n \<longrightarrow> smp (Suc t + m) = None"
      "shape e2 = same_step smp (Suc t) m @ (if m < n then [None] else [])"
      "yielded e2 = map (tok smp) [Suc t..<Suc t + m]"
      "o2 = (if m < n then Raised InferenceFailure else Exhausted)"
      by blast
    have all: "\<forall>j<Suc m. smp (t + j) \<noteq> None"
    proof (intro allI impI)
      fix j assume "j < Suc m"
      then show "smp (t + j) \<noteq> None" using Some m(2) by (cases j) simp_all
    qed
    have up: "[t..<t + Suc m] = t # [Suc t..<Suc t + m]" by (simp add: upt_conv_Cons)
    have sh: "shape evs = [None, Some [tok smp t]] @ shape e2" by (simp add: lo)
    have yl: "yielded evs = tok smp t # yielded e2" by (simp add: lo)
    have "shape evs = same_step smp t (Suc m) @ (if Suc m < Suc n then [None] else [])"
      unfolding sh same_step_Suc m(4) by simp
    moreover have "yielded evs = map (tok smp) [t..<t + Suc m]"
      unfolding yl m(5) up by simp
    moreover have "out = (if Suc m < Suc n then Raised InferenceFailure else Exhausted)"
      using lo(2) m(6) by simp
    moreover have "Suc m < Suc n \<longrightarrow> smp (t + Suc m) = None" using m(3) by simp
    ultimately show ?thesis using m(1) all by (intro exI[of _ "Suc m"]) simp
  qed
qed

subsection \<open>The mask\<close>

lemma count_ge_sorted:
  fixes xs :: "('a :: linorder) list"
  assumes "0 < n" and "n \<le> length xs"
  shows "n \<le> length (filter (\<lambda>x. \<not> x < rev (sort xs) ! (n - 1)) xs)"
proof -
  define ds where "ds = rev (sort xs)"
  define thr where "thr = ds ! (n - 1)"
  have len: "length ds = length xs" by (simp add: ds_def)
  have desc: "sorted_wrt (\<lambda>x y. y \<le> x) ds"
    unfolding ds_def by (simp add: sorted_wrt_rev)
  have top: "\<not> x < thr" if "x \<in> set (take n ds)" for x
  proof -
    from that obtain i where i: "i < n" "x = ds ! i"
      using assms(2) len by (auto simp: in_set_conv_nth)
    show ?thesis
    proof (cases "i = n - 1")
      case True
      then show ?thesis by (simp add: i thr_def)
    next
      case False
      then have "i < n - 1" "n - 1 < length ds" using i(1) assms len by simp_all
      then have "ds ! (n - 1) \<le> ds ! i"
        using sorted_wrt_nth_less[OF desc, of i "n - 1"] by simp
      then show ?thesis by (simp add: i thr_def not_less)
    qed
  qed
  have "filter (\<lambda>x. \<not> x < thr) ds = rev (sort (filter (\<lambda>x. \<not> x < thr) xs))"
    by (simp add: ds_def rev_filter[symmetric] filter_sort)
  then have same: "length (filter (\<lambda>x. \<not> x < thr) ds) = length (filter (\<lambda>x. \<not> x < thr) xs)"
    by simp
  have "filter (\<lambda>x. \<not> x < thr) ds
          = filter (\<lambda>x. \<not> x < thr) (take n ds) @ filter (\<lambda>x. \<not> x < thr) (drop n ds)"
    by (metis append_take_drop_id filter_append)
  then have "length (filter (\<lambda>x. \<not> x < thr) (take n ds))
                  \<le> length (filter (\<lambda>x. \<not> x < thr) xs)"
    unfolding same[symmetric] by simp
  moreover have "filter (\<lambda>x. \<not> x < thr) (take n ds) = take n ds"
    using top by (simp add: filter_id_conv)
  moreover have "length (take n ds) = n" using assms(2) len by simp
  ultimately show ?thesis by (simp add: thr_def ds_def)
qed

lemma crop_ok:
  fixes logits :: "('a :: linorder) list"
  assumes "logits \<noteq> []" and "1 \<le> k"
  shows "crop k logits
           = Inr (map (\<lambda>x. if x < kth_largest k logits then NegInf else Val x) logits)"
proof -
  define n where "n = min (nat k) (length logits)"
  have n: "0 < n" "n \<le> length logits" using assms by (simp_all add: n_def)
  have k': "min k (int (length logits)) = int n" using assms(2) unfolding n_def by linarith
  have "length (take n (rev (sort logits))) = n" using n by simp
  then have "take n (rev (sort logits)) \<noteq> []" using n by (metis length_0_conv less_irrefl)
  then have "last (take n (rev (sort logits))) = rev (sort logits) ! (n - 1)"
    using n by (simp add: last_conv_nth)
  then show ?thesis using n by (simp add: crop_def k' kth_largest_def n_def[symmetric] Let_def)
qed

lemma unmasked_card:
  fixes logits :: "('a :: linorder) list"
  assumes "logits \<noteq> []" and "1 \<le> k" and "crop k logits = Inr ys"
  shows "min (nat k) (length logits) \<le> card (unmasked ys)"
proof -
  define n where "n = min (nat k) (length logits)"
  have n: "0 < n" "n \<le> length logits" using assms by (simp_all add: n_def)
  have ys: "ys = map (\<lambda>x. if x < kth_largest k logits then NegInf else Val x) logits"
    using crop_ok[OF assms(1,2)] assms(3) by simp
  have "unmasked ys = {i. i < length logits \<and> \<not> logits ! i < kth_largest k logits}"
    by (auto simp: unmasked_def ys)
  then have "card (unmasked ys)
               = length (filter (\<lambda>x. \<not> x < kth_largest k logits) logits)"
    by (simp add: length_filter_conv_card)
  then show ?thesis using count_ge_sorted[OF n] by (simp add: kth_largest_def n_def)
qed

lemma finite_values_empty: "finite_values ys = [] \<Longrightarrow> i < length ys \<Longrightarrow> ys ! i = NegInf"
  by (induction ys arbitrary: i rule: finite_values.induct) (auto simp: nth_Cons split: nat.splits)

lemma softmax_masked:
  assumes "softmax ys = Some ps"
  shows "length ps = length ys \<and> (\<forall>i<length ys. ys ! i = NegInf \<longrightarrow> ps ! i = 0)"
  using assms by (auto simp: softmax_def Let_def fl32_def split: list.splits)

lemma softmax_defined:
  assumes "i < length ys" and "ys ! i \<noteq> NegInf"
  shows "\<exists>ps. softmax ys = Some ps"
proof -
  have "finite_values ys \<noteq> []" using finite_values_empty[of ys i] assms by auto
  then show ?thesis by (auto simp: softmax_def Let_def split: list.splits)
qed

lemma exp_underflow: "exp (- 200 :: real) \<le> 1 / 2 ^ 150"
proof -
  have "(2 :: real) \<le> exp 1" using exp_ge_add_one_self[of "1 :: real"] by simp
  then have "(2 :: real) ^ 200 \<le> exp 1 ^ 200" by (intro power_mono) simp_all
  also have "exp (1 :: real) ^ 200 = exp 200" using exp_of_nat_mult[of 200 "1 :: real"] by simp
  finally have "(2 :: real) ^ 150 \<le> exp 200"
    using power_increasing[of 150 200 "2 :: real"] by simp
  then have "1 / exp (200 :: real) \<le> 1 / 2 ^ 150"
    by (intro divide_left_mono) simp_all
  then show ?thesis by (simp add: exp_minus inverse_eq_divide)
qed

section \<open>The claims\<close>

subsection \<open>C1: a stop match keeps the matched tokens from the caller\<close>

text \<open>
  C1: a stop pattern is a non-empty list of tokens, and a token is an index into the
  vocabulary, hence not negative. For every such configuration and every run of
  \<open>generate\<close> that stops on a match of a pattern \<open>p\<close> at loop index \<open>t\<close> (after \<open>t + 1\<close>
  draws), the tokens yielded are exactly the first \<open>t + 1 - length p\<close> draws in order;
  the \<open>length p\<close> matched tokens are not yielded.
\<close>

theorem C1_stop_discards_match:
  assumes "\<forall>p \<in> set (stop_tokens cfg). p \<noteq> [] \<and> (\<forall>x \<in> set p. 0 \<le> x)"
    and "generate block_size prompt cfg smp = (evs, StopHit t p)"
  shows "p \<in> set (stop_tokens cfg) \<and> length p \<le> t + 1 \<and> (\<forall>i \<le> t. smp i \<noteq> None) \<and>
         yielded evs = map (tok smp) [0..<t + 1 - length p]"
proof -
  have "sentinel_free (stop_tokens cfg)" using assms(1) by (intro token_ids_sentinel_free) blast
  from generate_run[OF this assms(2)] show ?thesis by auto
qed

text \<open>The theorem at the second example of the specification: pattern \<open>[9, 10]\<close>, draws \<open>1, 9, 10\<close>.\<close>

theorem C1_stop_discards_match_witness:
  "[9, 10 :: int] \<noteq> [] \<and> (0 :: int) \<le> 9 \<and> (0 :: int) \<le> 10
   \<and> generate 2048 [11, 12]
       \<lparr>max_new_tokens = 3, max_seq_length = None, temperature = 1, top_k = None,
        stop_tokens = [[9, 10]]\<rparr> (draws [1, 9, 10])
       = ([Forward [11, 12] 5 [0, 1], Forward [1] 5 [2], Yield [1], Forward [9] 5 [3]],
          StopHit 2 [9, 10])
   \<and> yielded [Forward [11, 12] 5 [0, 1], Forward [1] 5 [2], Yield [1], Forward [9] 5 [3]]
       = map (tok (draws [1, 9, 10])) [0..<2 + 1 - length [9, 10 :: int]]"
proof -
  let ?cfg = "\<lparr>max_new_tokens = 3, max_seq_length = None, temperature = 1,
        top_k = None, stop_tokens = [[9, 10]]\<rparr>"
  have h1: "\<forall>p \<in> set (stop_tokens ?cfg). p \<noteq> [] \<and> (\<forall>x \<in> set p. 0 \<le> x)" by simp
  have h2: "generate 2048 [11, 12] ?cfg (draws [1, 9, 10])
       = ([Forward [11, 12] 5 [0, 1], Forward [1] 5 [2], Yield [1], Forward [9] 5 [3]],
          StopHit 2 [9, 10])" by code_simp
  from C1_stop_discards_match[OF h1 h2] h1 h2 show ?thesis by simp
qed

subsection \<open>C2: the stop test while the buffer is filling\<close>

text \<open>
  C2 fails on the code. The draw of iteration \<open>t\<close> is written to slot
  \<open>min(t, L - 1)\<close>, so a fresh buffer fills from the left, while the stop test reads
  \<open>buffer[-l:]\<close>, the right end, which still holds the filler. With the patterns \<open>[7]\<close>
  and \<open>[1, 2]\<close> and the draws \<open>7, 3\<close>, the sequence drawn ends with the pattern \<open>[7]\<close>
  after the first draw; the generator does not stop there and yields \<open>7\<close> in the next
  iteration.
\<close>

theorem C2_early_match_missed:
  "generate 2048 [11, 12]
     \<lparr>max_new_tokens = 2, max_seq_length = None, temperature = 1, top_k = None,
      stop_tokens = [[7], [1, 2]]\<rparr> (draws [7, 3])
     = ([Forward [11, 12] 4 [0, 1], Forward [7] 4 [2], Yield [7]], Exhausted)"
  by code_simp

subsection \<open>C3: the end of the budget\<close>

lemma exhausted_yields:
  assumes "sentinel_free (stop_tokens cfg)"
    and "generate block_size prompt cfg smp = (evs, Exhausted)"
  shows "yielded evs
           = map (tok smp) [0..<nat (max_new_tokens cfg) - (buffer_length (stop_tokens cfg) - 1)]"
  using generate_run[OF assms] by auto

text \<open>
  C3 fails on the code. Nothing follows the \<open>for\<close> loop, so the last \<open>L - 1\<close> draws
  stay in the buffer when the budget runs out. With the pattern \<open>[1, 2]\<close>, a budget of
  three and the draws \<open>5, 6, 7\<close> no stop is detected and two tokens are yielded.
\<close>

theorem C3_budget_end_keeps_tail:
  "generate 2048 [11, 12]
     \<lparr>max_new_tokens = 3, max_seq_length = None, temperature = 1, top_k = None,
      stop_tokens = [[1, 2]]\<rparr> (draws [5, 6, 7])
     = ([Forward [11, 12] 5 [0, 1], Forward [5] 5 [2], Yield [5], Forward [6] 5 [3], Yield [6]],
        Exhausted)
   \<and> length (yielded [Forward [11, 12] 5 [0, 1], Forward [5] 5 [2], Yield [5],
                        Forward [6] 5 [3], Yield [6]]) = 2"
  by code_simp

subsection \<open>C4: what the top-k mask leaves\<close>

text \<open>
  C4, as stated, fails. With the logits \<open>0\<close> and \<open>-200\<close> and \<open>top_k = 2\<close> the threshold
  is \<open>-200\<close> and no logit is masked; the exponential of \<open>-200\<close> is below \<open>1 / 2 ^ 150\<close>
  and is rounded to zero, so one token only has a probability that is not zero.
\<close>

theorem C4_counterexample:
  "probs (Some 2) [0, - 200] = Inr (Some [1, 0])
   \<and> support [1, 0] = {0}
   \<and> card (support [1, 0]) < min (nat 2) (length [0, - 200 :: real])"
proof -
  have "crop 2 [0, - 200 :: real] = Inr [Val 0, Val (- 200)]" by (simp add: crop_def)
  moreover have "softmax [Val 0, Val (- 200)] = Some [1, 0]"
    using exp_underflow by (simp add: softmax_def fl32_def)
  ultimately have "probs (Some 2) [0, - 200] = Inr (Some [1, 0])" by (simp add: probs_def)
  moreover have "support [1, 0] = {0}" by (auto simp: support_def less_Suc_eq)
  ultimately show ?thesis by simp
qed

text \<open>
  C4, amended: for every non-empty logits vector and every \<open>top_k = k \<ge> 1\<close>, the mask
  leaves the logit of at least \<open>min(k, vocabulary size)\<close> tokens in place; every token
  whose logit is strictly less than the \<open>k\<close>-th largest logit is masked and has
  probability zero, so that the tokens with a probability that is not zero are among
  the unmasked ones; every other token, the ones that tie the \<open>k\<close>-th largest logit
  included, keeps its logit.
\<close>

theorem C4_top_k_mask:
  fixes logits :: "real list"
  assumes "logits \<noteq> []" and "1 \<le> k"
  shows "\<exists>ys ps. crop k logits = Inr ys \<and> probs (Some k) logits = Inr (Some ps) \<and>
           length ys = length logits \<and> length ps = length logits \<and>
           min (nat k) (length logits) \<le> card (unmasked ys) \<and>
           (\<forall>i<length logits. logits ! i < kth_largest k logits \<longrightarrow>
              ys ! i = NegInf \<and> ps ! i = 0) \<and>
           (\<forall>i<length logits. \<not> logits ! i < kth_largest k logits \<longrightarrow>
              ys ! i = Val (logits ! i)) \<and>
           support ps \<subseteq> unmasked ys"
proof -
  define ys where "ys = map (\<lambda>x. if x < kth_largest k logits then NegInf else Val x) logits"
  have c: "crop k logits = Inr ys" unfolding ys_def using assms by (rule crop_ok)
  have len: "length ys = length logits" by (simp add: ys_def)
  have card: "min (nat k) (length logits) \<le> card (unmasked ys)"
    using assms c by (rule unmasked_card)
  have "0 < min (nat k) (length logits)" using assms by simp
  then have "0 < card (unmasked ys)" using card by linarith
  then have "unmasked ys \<noteq> {}" by (metis card.empty less_irrefl)
  then obtain i where "i < length ys" "ys ! i \<noteq> NegInf" by (auto simp: unmasked_def)
  then obtain ps where ps: "softmax ys = Some ps" using softmax_defined by blast
  note sm = softmax_masked[OF ps]
  have p: "probs (Some k) logits = Inr (Some ps)" by (simp add: probs_def c ps)
  have below: "\<forall>i<length logits. logits ! i < kth_largest k logits \<longrightarrow>
              ys ! i = NegInf \<and> ps ! i = 0"
    using sm len by (simp add: ys_def)
  have keep: "\<forall>i<length logits. \<not> logits ! i < kth_largest k logits \<longrightarrow>
              ys ! i = Val (logits ! i)"
    by (simp add: ys_def)
  have lps: "length ps = length logits" using sm len by simp
  have sub: "support ps \<subseteq> unmasked ys"
    using sm by (auto simp: support_def unmasked_def)
  show ?thesis
    by (rule exI[of _ ys], rule exI[of _ ps]) (intro conjI c p len lps card below keep sub)
qed

text \<open>
  The theorem at a vector in which two logits tie at the second largest value: three
  tokens stay unmasked for \<open>k = 2\<close>.
\<close>

theorem C4_top_k_mask_witness:
  "[3, 1, 2, 2, 0 :: real] \<noteq> [] \<and> (1 :: int) \<le> 2
   \<and> crop 2 [3, 1, 2, 2, 0 :: real] = Inr [Val 3, NegInf, Val 2, Val 2, NegInf]
   \<and> kth_largest 2 [3, 1, 2, 2, 0 :: real] = 2
   \<and> min (nat 2) (length [3, 1, 2, 2, 0 :: real])
        \<le> card (unmasked [Val 3, NegInf, Val 2, Val 2, NegInf :: real masked])
   \<and> unmasked [Val 3, NegInf, Val 2, Val 2, NegInf :: real masked] = {0, 2, 3}"
proof -
  have h1: "[3, 1, 2, 2, 0 :: real] \<noteq> []" and h2: "(1 :: int) \<le> 2" by simp_all
  have c: "crop 2 [3, 1, 2, 2, 0 :: real] = Inr [Val 3, NegInf, Val 2, Val 2, NegInf]"
    by (simp add: crop_def)
  have k: "kth_largest 2 [3, 1, 2, 2, 0 :: real] = 2" by (simp add: kth_largest_def)
  have u: "unmasked [Val 3, NegInf, Val 2, Val 2, NegInf :: real masked] = {0, 2, 3}"
    by (auto simp: unmasked_def less_Suc_eq numeral_eq_Suc)
  from C4_top_k_mask[OF h1 h2] c
  have "min (nat 2) (length [3, 1, 2, 2, 0 :: real])
        \<le> card (unmasked [Val 3, NegInf, Val 2, Val 2, NegInf :: real masked])" by auto
  then show ?thesis using h1 h2 c k u by blast
qed


subsection \<open>C5: the yielded stream is a prefix of the draws\<close>

text \<open>
  C5: for stop patterns made of token ids (vocabulary indices, not negative), whatever
  their lengths and hence whatever the capacity of the buffer, and for every run, the
  yielded stream is a prefix of the sequence of draws: position \<open>i\<close> of the stream is
  draw \<open>i\<close>, so each draw is yielded at most once and in the order of generation; and
  when the run stops on a match of \<open>p\<close> at loop index \<open>t\<close>, the stream ends exactly where
  the matched tokens begin.
\<close>

theorem C5_emitted_is_prefix:
  assumes "\<forall>p \<in> set (stop_tokens cfg). \<forall>x \<in> set p. 0 \<le> x"
    and "generate block_size prompt cfg smp = (evs, out)"
  shows "prefix (yielded evs) (map (tok smp) [0..<nat (max_new_tokens cfg)]) \<and>
         (\<forall>i < length (yielded evs). smp i \<noteq> None \<and> yielded evs ! i = tok smp i) \<and>
         (\<forall>t p. out = StopHit t p \<longrightarrow> length (yielded evs) + length p = t + 1)"
proof -
  have "sentinel_free (stop_tokens cfg)" using assms(1) by (rule token_ids_sentinel_free)
  from generate_run[OF this assms(2)] obtain k where k:
    "yielded evs = map (tok smp) [0..<k]" "\<forall>i<k. smp i \<noteq> None" "k \<le> nat (max_new_tokens cfg)"
    "\<forall>t p. out = StopHit t p \<longrightarrow> k = Suc t - length p \<and> length p \<le> Suc t"
    by blast
  have "map (tok smp) [0..<nat (max_new_tokens cfg)]
          = map (tok smp) [0..<k] @ map (tok smp) [k..<nat (max_new_tokens cfg)]"
    using k(3) by (simp add: map_upt_join)
  then have "prefix (yielded evs) (map (tok smp) [0..<nat (max_new_tokens cfg)])"
    unfolding k(1) by (simp only: prefix_def) blast
  moreover have "length (yielded evs) = k" by (simp add: k(1))
  ultimately show ?thesis using k by auto
qed

text \<open>The theorem at a run that yields two tokens and then stops on \<open>[1, 2]\<close>.\<close>

theorem C5_emitted_is_prefix_witness:
  "(0 :: int) \<le> 7 \<and> (0 :: int) \<le> 1 \<and> (0 :: int) \<le> 2
   \<and> generate 2048 [11, 12]
       \<lparr>max_new_tokens = 5, max_seq_length = None, temperature = 1, top_k = None,
        stop_tokens = [[7], [1, 2]]\<rparr> (draws [4, 5, 1, 2, 6])
       = ([Forward [11, 12] 7 [0, 1], Forward [4] 7 [2], Yield [4], Forward [5] 7 [3],
           Yield [5], Forward [1] 7 [4]], StopHit 3 [1, 2])
   \<and> prefix [4, 5] (map (tok (draws [4, 5, 1, 2, 6])) [0..<5])
   \<and> [4, 5] ! 1 = tok (draws [4, 5, 1, 2, 6]) 1
   \<and> length [4, 5 :: int] + length [1, 2 :: int] = 3 + 1"
proof -
  let ?cfg = "\<lparr>max_new_tokens = 5, max_seq_length = None, temperature = 1,
        top_k = None, stop_tokens = [[7], [1, 2]]\<rparr>"
  have h1: "\<forall>p \<in> set (stop_tokens ?cfg). \<forall>x \<in> set p. 0 \<le> x" by simp
  have h2: "generate 2048 [11, 12] ?cfg (draws [4, 5, 1, 2, 6])
       = ([Forward [11, 12] 7 [0, 1], Forward [4] 7 [2], Yield [4], Forward [5] 7 [3],
           Yield [5], Forward [1] 7 [4]], StopHit 3 [1, 2])" by code_simp
  from C5_emitted_is_prefix[OF h1 h2] h1 h2 show ?thesis by (simp add: tok_def draws_def)
qed

subsection \<open>C6: several patterns ending the recent tokens\<close>

text \<open>
  C6 fails on the code, for the reason C2 does. With the patterns \<open>[7]\<close>, \<open>[3, 7]\<close> and
  \<open>[1, 2, 3]\<close> the buffer has three slots. After the draws \<open>3, 7\<close> both \<open>[7]\<close> and
  \<open>[3, 7]\<close> end the tokens generated so far, and the first of them should decide; the
  buffer is \<open>[3, 7, -999]\<close>, the stop test reads its right end, and no pattern decides:
  the run goes on and yields \<open>3\<close> and \<open>7\<close>. (Once a stop is made, it is made on the first
  pattern that ends the draws, by \<open>stop_on_first_suffix\<close>.)
\<close>

theorem C6_fill_phase_no_winner:
  "generate 2048 [11, 12]
     \<lparr>max_new_tokens = 4, max_seq_length = None, temperature = 1, top_k = None,
      stop_tokens = [[7], [3, 7], [1, 2, 3]]\<rparr> (draws [3, 7, 4, 5])
     = ([Forward [11, 12] 6 [0, 1], Forward [3] 6 [2], Forward [7] 6 [3], Yield [3],
         Forward [4] 6 [4], Yield [7]], Exhausted)
   \<and> suffix [7] (map (tok (draws [3, 7, 4, 5])) [0..<2])
   \<and> suffix [3, 7] (map (tok (draws [3, 7, 4, 5])) [0..<2])"
  by code_simp

subsection \<open>C7: the position passed to the model\<close>

text \<open>
  C7, as stated, fails for a prompt without tokens: \<open>input_pos\<close> starts as the empty
  \<open>arange(0, 0)\<close>, and \<open>input_pos[-1:] + 1\<close> of an empty tensor is empty again, so the
  second call receives no position where the claim says position \<open>0\<close>.
\<close>

theorem C7_counterexample:
  "call_positions (fst (generate 2048 []
       \<lparr>max_new_tokens = 2, max_seq_length = None, temperature = 1, top_k = None,
        stop_tokens = []\<rparr> (draws [5, 6]))) = [[], []]
   \<and> [[], []] ! 1 \<noteq> [int (length ([] :: int list)) + int 1 - 1]"
  by code_simp

text \<open>
  C7, amended: for a prompt of \<open>T \<ge> 1\<close> tokens the first call of the model receives
  the positions \<open>0, \<dots>, T - 1\<close>, and for every \<open>i \<ge> 1\<close> the call number \<open>i + 1\<close> receives
  the single position \<open>T + i - 1\<close>: the position grows by one with every token drawn.
\<close>

theorem C7_positions_advance_by_one:
  assumes "prompt \<noteq> []"
    and "i < length (call_positions (fst (generate block_size prompt cfg smp)))"
  shows "call_positions (fst (generate block_size prompt cfg smp)) ! i
           = (if i = 0 then map int [0..<length prompt] else [int (length prompt) + int i - 1])"
proof -
  define L where "L = buffer_length (stop_tokens cfg)"
  define N where "N = nat (max_new_tokens cfg)"
  define T_new where "T_new = int (length prompt) + max_new_tokens cfg"
  define msl where "msl = (case max_seq_length cfg of None \<Rightarrow> min T_new block_size | Some m \<Rightarrow> m)"
  define st0 where "st0 = \<lparr>idx = prompt, input_pos = map int [0..<length prompt],
                 buffer = replicate L (- 999), yield_i = - 1\<rparr>"
  have gen: "generate block_size prompt cfg smp =
      (if \<not> msl \<le> T_new then ([], Raised AssertionError)
       else loop msl (stop_tokens cfg) L smp N 0 st0)"
    unfolding generate_def Let_def msl_def T_new_def L_def N_def st0_def by simp
  show ?thesis
  proof (cases "msl \<le> T_new")
    case False
    then have "call_positions (fst (generate block_size prompt cfg smp)) = []"
      by (simp add: gen)
    with assms(2) show ?thesis by simp
  next
    case True
    then have g: "generate block_size prompt cfg smp = loop msl (stop_tokens cfg) L smp N 0 st0"
      by (simp add: gen)
    have ne: "input_pos st0 \<noteq> []" using assms(1) by (simp add: st0_def)
    have "0 < length prompt" using assms(1) by simp
    then have "last (map int [0..<length prompt]) = int (length prompt) - 1"
      by (cases "length prompt") (simp_all add: last_map)
    then have lst: "last (input_pos st0) = int (length prompt) - 1"
      by (simp add: st0_def)
    from loop_positions[OF ne assms(2)[unfolded g]] show ?thesis
      unfolding g lst by (simp add: st0_def)
  qed
qed

text \<open>The theorem at the third call of a run with a prompt of three tokens.\<close>

theorem C7_positions_advance_by_one_witness:
  "[11, 12, 13 :: int] \<noteq> []
   \<and> call_positions (fst (generate 2048 [11, 12, 13]
       \<lparr>max_new_tokens = 3, max_seq_length = None, temperature = 1, top_k = None,
        stop_tokens = [[7]]\<rparr> (draws [4, 5, 6]))) = [[0, 1, 2], [3], [4]]
   \<and> (2 :: nat) < length [[0, 1, 2], [3], [4 :: int]]
   \<and> [[0, 1, 2], [3], [4]] ! 2 = [int (length [11, 12, 13 :: int]) + int 2 - 1]"
proof -
  let ?g = "generate 2048 [11, 12, 13]
       \<lparr>max_new_tokens = 3, max_seq_length = None, temperature = 1, top_k = None,
        stop_tokens = [[7]]\<rparr> (draws [4, 5, 6])"
  have h0: "[11, 12, 13 :: int] \<noteq> []" by simp
  have h: "call_positions (fst ?g) = [[0, 1, 2], [3], [4]]" by code_simp
  then have "2 < length (call_positions (fst ?g))" by simp
  from C7_positions_advance_by_one[OF h0 this] h show ?thesis by simp
qed

subsection \<open>C8: what is checked before the loop\<close>

text \<open>
  C8, as stated, fails. \<open>generate\<close> never inspects \<open>temperature\<close>: with the temperature
  \<open>-1\<close> the logits are divided by \<open>-1\<close>, softmax and the draw go through, and the token
  drawn is yielded.
\<close>

theorem C8_counterexample:
  "temperature \<lparr>max_new_tokens = 1, max_seq_length = None, temperature = - 1, top_k = None,
      stop_tokens = []\<rparr> \<le> 0
   \<and> generate 2048 [11, 12]
       \<lparr>max_new_tokens = 1, max_seq_length = None, temperature = - 1, top_k = None,
        stop_tokens = []\<rparr> (draws [5])
     = ([Forward [11, 12] 3 [0, 1], Yield [5]], Exhausted)"
  by (simp add: generate_def buffer_length_def body_def draws_def setitem_def)

text \<open>
  C8, amended: every call of \<open>generate\<close> whose \<open>max_seq_length\<close> is given and exceeds the
  prompt length plus \<open>max_new_tokens\<close> fails on the assertion in front of the loop,
  without a call of the model and without yielding a token. The temperature is not
  among the things checked there.
\<close>

theorem C8_assert_before_loop:
  assumes "max_seq_length cfg = Some m"
    and "int (length prompt) + max_new_tokens cfg < m"
  shows "generate block_size prompt cfg smp = ([], Raised AssertionError)"
  using assms by (simp add: generate_def)

text \<open>The theorem at a prompt of two tokens, three new tokens and \<open>max_seq_length = 6\<close>.\<close>

theorem C8_assert_before_loop_witness:
  "max_seq_length \<lparr>max_new_tokens = 3, max_seq_length = Some 6, temperature = 1,
       top_k = None, stop_tokens = []\<rparr> = Some 6
   \<and> int (length [11, 12 :: int]) + max_new_tokens \<lparr>max_new_tokens = 3,
       max_seq_length = Some 6, temperature = 1, top_k = None, stop_tokens = []\<rparr> < 6
   \<and> generate 2048 [11, 12] \<lparr>max_new_tokens = 3, max_seq_length = Some 6, temperature = 1,
       top_k = None, stop_tokens = []\<rparr> (draws [5, 6, 7]) = ([], Raised AssertionError)"
proof -
  let ?cfg = "\<lparr>max_new_tokens = 3, max_seq_length = Some 6, temperature = 1,
       top_k = None, stop_tokens = []\<rparr>"
  have h1: "max_seq_length ?cfg = Some 6" by simp
  have h2: "int (length [11, 12 :: int]) + max_new_tokens ?cfg < 6" by simp
  from C8_assert_before_loop[OF h1 h2] h1 h2 show ?thesis by simp
qed

subsection \<open>C9: the filler is never yielded\<close>

text \<open>
  C9: when every token of every stop pattern is non-negative, no yielded value is the
  filler \<open>-999\<close>, and every yielded value is the index returned by a draw of this call
  (value number \<open>i\<close> is draw number \<open>i\<close>). The draws are vocabulary indices, hence
  the type \<open>nat\<close> of \<open>smp\<close>.
\<close>

theorem C9_no_filler_yielded:
  assumes "\<forall>p \<in> set (stop_tokens cfg). \<forall>x \<in> set p. 0 \<le> x"
    and "generate block_size prompt cfg smp = (evs, out)"
  shows "- 999 \<notin> set (yielded evs) \<and>
         (\<forall>i < length (yielded evs).
            i < nat (max_new_tokens cfg) \<and> smp i = Some (nat (yielded evs ! i)) \<and>
            0 \<le> yielded evs ! i)"
proof -
  have "sentinel_free (stop_tokens cfg)"
    unfolding sentinel_free_def
  proof (intro ballI impI)
    fix p assume "p \<in> set (stop_tokens cfg)" "p \<noteq> []"
    then have "0 \<le> last p" using assms(1) last_in_set by blast
    then show "last p \<noteq> - 999" by simp
  qed
  from generate_run[OF this assms(2)] obtain k where k:
    "yielded evs = map (tok smp) [0..<k]" "\<forall>i<k. smp i \<noteq> None" "k \<le> nat (max_new_tokens cfg)"
    by blast
  have len: "length (yielded evs) = k" by (simp add: k(1))
  have each: "i < nat (max_new_tokens cfg) \<and> smp i = Some (nat (yielded evs ! i)) \<and>
            0 \<le> yielded evs ! i" if lt: "i < k" for i
  proof -
    obtain v where v: "smp i = Some v" using k(2) lt by auto
    have "yielded evs ! i = int v" using lt v by (simp add: k(1) tok_def)
    then show ?thesis using v lt k(3) by simp
  qed
  have "- 999 \<notin> set (yielded evs)"
  proof
    assume "- 999 \<in> set (yielded evs)"
    then obtain i where "i < k" "yielded evs ! i = - 999"
      unfolding in_set_conv_nth len by blast
    with each[of i] show False by simp
  qed
  then show ?thesis using each len by simp
qed

text \<open>
  The theorem at a run in which the one-token pattern \<open>[7]\<close> is drawn while the
  three-slot buffer is still filling, and which later stops on \<open>[1, 2, 3]\<close>.
\<close>

theorem C9_no_filler_yielded_witness:
  "(0 :: int) \<le> 7 \<and> (0 :: int) \<le> 1 \<and> (0 :: int) \<le> 2 \<and> (0 :: int) \<le> 3
   \<and> generate 2048 [11, 12]
       \<lparr>max_new_tokens = 5, max_seq_length = None, temperature = 1, top_k = None,
        stop_tokens = [[7], [1, 2, 3]]\<rparr> (draws [7, 3, 1, 2, 3])
       = ([Forward [11, 12] 7 [0, 1], Forward [7] 7 [2], Forward [3] 7 [3], Yield [7],
           Forward [1] 7 [4], Yield [3], Forward [2] 7 [5]], StopHit 4 [1, 2, 3])
   \<and> - 999 \<notin> set [7, 3 :: int]"
proof -
  let ?cfg = "\<lparr>max_new_tokens = 5, max_seq_length = None, temperature = 1,
        top_k = None, stop_tokens = [[7], [1, 2, 3]]\<rparr>"
  have h1: "\<forall>p \<in> set (stop_tokens ?cfg). \<forall>x \<in> set p. 0 \<le> x" by simp
  have h2: "generate 2048 [11, 12] ?cfg (draws [7, 3, 1, 2, 3])
       = ([Forward [11, 12] 7 [0, 1], Forward [7] 7 [2], Forward [3] 7 [3], Yield [7],
           Forward [1] 7 [4], Yield [3], Forward [2] 7 [5]], StopHit 4 [1, 2, 3])" by code_simp
  from C9_no_filler_yielded[OF h1 h2] h1 h2 show ?thesis by simp
qed

subsection \<open>C10: no stop patterns\<close>

text \<open>
  C10: with an empty set of stop patterns the buffer has one slot. A run that passes
  the assertion consists of \<open>m\<close> iterations, each of which calls the model and yields
  the token drawn in it before the next call, where \<open>m\<close> is the number of draws that
  succeed in a row; if a draw raises within the budget the run ends with that call,
  otherwise it ends by exhausting the budget. A run that exhausts the budget has
  yielded all \<open>max_new_tokens\<close> draws, none withheld.
\<close>

theorem C10_no_patterns_same_step:
  assumes "stop_tokens cfg = []"
    and "generate block_size prompt cfg smp = (evs, out)"
  shows "buffer_length (stop_tokens cfg) = 1 \<and>
         ((evs = [] \<and> out = Raised AssertionError) \<or>
          (\<exists>m\<le>nat (max_new_tokens cfg).
             (\<forall>j<m. smp j \<noteq> None) \<and> (m < nat (max_new_tokens cfg) \<longrightarrow> smp m = None) \<and>
             shape evs = same_step smp 0 m @ (if m < nat (max_new_tokens cfg) then [None] else []) \<and>
             yielded evs = map (tok smp) [0..<m] \<and>
             out = (if m < nat (max_new_tokens cfg) then Raised InferenceFailure else Exhausted))) \<and>
         (out = Exhausted \<longrightarrow>
            shape evs = same_step smp 0 (nat (max_new_tokens cfg)) \<and>
            yielded evs = map (tok smp) [0..<nat (max_new_tokens cfg)] \<and>
            length (yielded evs) = nat (max_new_tokens cfg))"
proof -
  define N where "N = nat (max_new_tokens cfg)"
  define T_new where "T_new = int (length prompt) + max_new_tokens cfg"
  define msl where "msl = (case max_seq_length cfg of None \<Rightarrow> min T_new block_size | Some m \<Rightarrow> m)"
  define st0 where "st0 = \<lparr>idx = prompt, input_pos = map int [0..<length prompt],
                 buffer = replicate 1 (- 999), yield_i = - 1\<rparr>"
  have L: "buffer_length (stop_tokens cfg) = 1" using assms(1) by (simp add: buffer_length_def)
  have gen: "generate block_size prompt cfg smp =
      (if \<not> msl \<le> T_new then ([], Raised AssertionError)
       else loop msl [] 1 smp N 0 st0)"
    unfolding generate_def Let_def msl_def T_new_def L N_def st0_def by (simp add: assms(1))
  show ?thesis
  proof (cases "msl \<le> T_new")
    case False
    with assms(2) gen have "evs = []" "out = Raised AssertionError" by simp_all
    then show ?thesis using L by simp
  next
    case True
    with assms(2) gen have lp: "loop msl [] 1 smp N 0 st0 = (evs, out)" by simp
    have "length (buffer st0) = 1" "yield_i st0 = int 0 - 1" by (simp_all add: st0_def)
    from loop_one_slot[OF this lp] obtain m where m: "m \<le> N" "\<forall>j<m. smp j \<noteq> None"
      "m < N \<longrightarrow> smp m = None"
      "shape evs = same_step smp 0 m @ (if m < N then [None] else [])"
      "yielded evs = map (tok smp) [0..<m]"
      "out = (if m < N then Raised InferenceFailure else Exhausted)"
      by auto
    have ex: "out = Exhausted \<longrightarrow> m = N" using m(1,6) by (auto split: if_splits)
    have "out = Exhausted \<longrightarrow>
            shape evs = same_step smp 0 N \<and> yielded evs = map (tok smp) [0..<N] \<and>
            length (yielded evs) = N"
      using ex m(4,5) by auto
    moreover have "\<exists>m\<le>N. (\<forall>j<m. smp j \<noteq> None) \<and> (m < N \<longrightarrow> smp m = None) \<and>
             shape evs = same_step smp 0 m @ (if m < N then [None] else []) \<and>
             yielded evs = map (tok smp) [0..<m] \<and>
             out = (if m < N then Raised InferenceFailure else Exhausted)"
      using m by blast
    ultimately show ?thesis unfolding N_def[symmetric] using L by blast
  qed
qed

text \<open>The theorem at a run of three iterations.\<close>

theorem C10_no_patterns_same_step_witness:
  "stop_tokens \<lparr>max_new_tokens = 3, max_seq_length = None, temperature = 1, top_k = None,
       stop_tokens = []\<rparr> = []
   \<and> generate 2048 [11, 12]
        \<lparr>max_new_tokens = 3, max_seq_length = None, temperature = 1, top_k = None,
         stop_tokens = []\<rparr> (draws [5, 6, 7])
       = ([Forward [11, 12] 5 [0, 1], Yield [5], Forward [5] 5 [2], Yield [6],
           Forward [6] 5 [3], Yield [7]], Exhausted)
   \<and> buffer_length [] = 1
   \<and> shape [Forward [11, 12] 5 [0, 1], Yield [5], Forward [5] 5 [2], Yield [6],
              Forward [6] 5 [3], Yield [7]] = same_step (draws [5, 6, 7]) 0 3
   \<and> yielded [Forward [11, 12] 5 [0, 1], Yield [5], Forward [5] 5 [2], Yield [6],
              Forward [6] 5 [3], Yield [7]] = map (tok (draws [5, 6, 7])) [0..<3]
   \<and> length (yielded [Forward [11, 12] 5 [0, 1], Yield [5], Forward [5] 5 [2], Yield [6],
              Forward [6] 5 [3], Yield [7]]) = 3"
proof -
  let ?cfg = "\<lparr>max_new_tokens = 3, max_seq_length = None, temperature = 1, top_k = None,
       stop_tokens = []\<rparr>"
  have h1: "stop_tokens ?cfg = []" by simp
  have h2: "generate 2048 [11, 12] ?cfg (draws [5, 6, 7])
       = ([Forward [11, 12] 5 [0, 1], Yield [5], Forward [5] 5 [2], Yield [6],
           Forward [6] 5 [3], Yield [7]], Exhausted)" by code_simp
  from C10_no_patterns_same_step[OF h1 h2] h1 h2 show ?thesis by simp
qed

end
